theory Spec2Isabelle
  imports Main "HOL-Library.Word" "HOL-Library.Multiset"
begin

section \<open>The cache2go table: data model\<close>

text \<open>
  The embedding follows \<^verbatim>\<open>cache2go/cacheitem.go\<close> and the table code
  (\<^verbatim>\<open>CacheTable\<close> and its methods). It is sequential: the bodies of the methods
  are executed one after the other, so \<^verbatim>\<open>Lock\<close>/\<^verbatim>\<open>Unlock\<close> of the table are
  not part of the state (the entry lock is modelled in a section of its own).

  \<^item> \<^verbatim>\<open>time.Duration\<close> is an \<^verbatim>\<open>int64\<close> of nanoseconds: a 64-bit word, compared
    as a signed number (\<open><s\<close>, \<open>\<le>s\<close>), with \<open>+\<close> and \<open>-\<close> wrapping as in Go.
  \<^item> A \<^verbatim>\<open>time.Time\<close> produced by \<^verbatim>\<open>time.Now()\<close> carries a monotonic clock reading,
    an \<^verbatim>\<open>int64\<close> of nanoseconds; only that reading is kept.
  \<^item> A \<^verbatim>\<open>*CacheItem\<close> is an address into a heap of items.
  \<^item> Callbacks are opaque to the table: a callback is a name, and calling it adds an
    event to a trace. The loader is a function from key and arguments to an optional
    address. Neither re-enters the table or changes an entry.
  \<^item> The trace holds, in the order of the program, every call of a callback and of the
    loader, every store to the map and every deletion from it, and every start of the
    expiration check.
  \<^item> Every \<^verbatim>\<open>time.Now()\<close> of a method is a parameter of its model, and so is the order
    in which a \<^verbatim>\<open>range\<close> over the map yields the keys.
  \<^item> Diagnostic logging (\<^verbatim>\<open>ct.log\<close>) writes to the logger only and is left out.
\<close>

type_synonym duration = "64 word"
type_synonym time = "64 word"
type_synonym addr = nat

record ('k, 'v, 'cb) CacheItem =
  key :: 'k
  data :: 'v
  lifeSpan :: duration
  createTime :: time
  accessedTime :: time
  accessCount :: "64 word"
  aboutToExpire :: "'cb list"

datatype timer = Armed duration | Stopped

datatype error = ErrCacheNotFound | ErrCacheNotFoundOrLoadable

datatype ('k, 'a, 'cb) event =
    AddedItemCall 'cb addr
  | DeletedItemCall 'cb addr
  | AboutToExpireCall 'cb 'k
  | LoadDataCall 'k "'a list"
  | MapStore 'k addr
  | MapDelete 'k
  | ExpirationCheckRun time

text \<open>The fields of \<^verbatim>\<open>CacheTable\<close> (without the mutex and the logger), and with them what
  the methods work on besides the table: the heap of items, the next free address of
  the heap, and the trace.\<close>

record ('k, 'v, 'a, 'cb) CacheTable =
  name :: string
  items :: "'k \<rightharpoonup> addr"
  cleanupTimer :: "timer option"
  cleanupDuration :: duration
  loadData :: "('k \<Rightarrow> 'a list \<Rightarrow> addr option) option"
  addedItem :: "'cb list"
  deletedItem :: "'cb list"
  heap :: "addr \<Rightarrow> ('k, 'v, 'cb) CacheItem"
  nextAddr :: addr
  trace :: "('k, 'a, 'cb) event list"

definition emit :: "('k, 'a, 'cb) event \<Rightarrow> ('k, 'v, 'a, 'cb) CacheTable \<Rightarrow> ('k, 'v, 'a, 'cb) CacheTable" where
  "emit e ct = ct\<lparr>trace := trace ct @ [e]\<rparr>"

subsection \<open>Time\<close>

definition maxDuration :: duration where
  "maxDuration = 9223372036854775807"

definition minDuration :: duration where
  "minDuration = - 9223372036854775808"

text \<open>\<^verbatim>\<open>Time.Sub\<close> of the Go library on two monotonic readings (\<^verbatim>\<open>subMono\<close>): the
  wrapped difference, saturated when the true difference is out of range.\<close>

definition Sub :: "time \<Rightarrow> time \<Rightarrow> duration" where
  "Sub t u = (let d = t - u in
     if d <s 0 \<and> u <s t then maxDuration
     else if 0 <s d \<and> t <s u then minDuration
     else d)"

text \<open>\<^verbatim>\<open>if ct.cleanupTimer != nil { ct.cleanupTimer.Stop() }\<close>, as both
  \<^verbatim>\<open>expirationCheck\<close> and \<^verbatim>\<open>Flush\<close> have it.\<close>

definition stopTimer :: "('k, 'v, 'a, 'cb) CacheTable \<Rightarrow> ('k, 'v, 'a, 'cb) CacheTable" where
  "stopTimer ct = (case cleanupTimer ct of
                     None \<Rightarrow> ct
                   | Some _ \<Rightarrow> ct\<lparr>cleanupTimer := Some Stopped\<rparr>)"

subsection \<open>Entries\<close>

definition NewCacheItem ::
  "time \<Rightarrow> 'k \<Rightarrow> 'v \<Rightarrow> duration \<Rightarrow> ('k, 'v, 'a, 'cb) CacheTable \<Rightarrow> addr \<times> ('k, 'v, 'a, 'cb) CacheTable" where
  "NewCacheItem now k v ls ct =
     (nextAddr ct,
      ct\<lparr>heap := (heap ct)(nextAddr ct :=
            \<lparr>key = k, data = v, lifeSpan = ls, createTime = now, accessedTime = now,
             accessCount = 0, aboutToExpire = []\<rparr>),
         nextAddr := Suc (nextAddr ct)\<rparr>)"

definition KeepAlive :: "time \<Rightarrow> ('k, 'v, 'cb) CacheItem \<Rightarrow> ('k, 'v, 'cb) CacheItem" where
  "KeepAlive now ci = ci\<lparr>accessCount := accessCount ci + 1, accessedTime := now\<rparr>"

subsection \<open>Deleting\<close>

text \<open>\<^verbatim>\<open>deleteInternal\<close>: the table's delete callbacks are called with the item, then the
  item's own callbacks with the key, then the key is deleted from the map. A missing key
  is the early return with \<^verbatim>\<open>ErrCacheNotFound\<close> (the source returns there without
  unlocking the table; locks are not part of this state).\<close>

definition deleteInternal ::
  "'k \<Rightarrow> ('k, 'v, 'a, 'cb) CacheTable \<Rightarrow> (error + addr) \<times> ('k, 'v, 'a, 'cb) CacheTable" where
  "deleteInternal k ct =
     (case items ct k of
        None \<Rightarrow> (Inl ErrCacheNotFound, ct)
      | Some item \<Rightarrow>
          let ct1 = fold (\<lambda>callback. emit (DeletedItemCall callback item)) (deletedItem ct) ct;
              ct2 = fold (\<lambda>callback. emit (AboutToExpireCall callback k))
                      (aboutToExpire (heap ct1 item)) ct1;
              ct3 = emit (MapDelete k) (ct2\<lparr>items := (items ct2)(k := None)\<rparr>)
          in (Inr item, ct3))"

definition Delete ::
  "'k \<Rightarrow> ('k, 'v, 'a, 'cb) CacheTable \<Rightarrow> (error + addr) \<times> ('k, 'v, 'a, 'cb) CacheTable" where
  "Delete k ct = deleteInternal k ct"

definition Exists :: "'k \<Rightarrow> ('k, 'v, 'a, 'cb) CacheTable \<Rightarrow> bool" where
  "Exists k ct = (items ct k \<noteq> None)"

definition Count :: "('k, 'v, 'a, 'cb) CacheTable \<Rightarrow> nat" where
  "Count ct = card (dom (items ct))"

subsection \<open>The expiration check\<close>

text \<open>The remaining time of an entry as \<^verbatim>\<open>expirationCheck\<close> computes it:
  \<^verbatim>\<open>lifeSpan - now.Sub(accessedTime)\<close>, an \<^verbatim>\<open>int64\<close> subtraction.\<close>

definition curDuration :: "time \<Rightarrow> ('k, 'v, 'cb) CacheItem \<Rightarrow> duration" where
  "curDuration now v = lifeSpan v - Sub now (accessedTime v)"

text \<open>The loop \<^verbatim>\<open>for k, v := range ct.items\<close>, over the keys in the order the range
  yields them. A key that is no longer in the map when its turn comes is not produced.\<close>

fun sweep ::
  "time \<Rightarrow> 'k list \<Rightarrow> duration \<Rightarrow> ('k, 'v, 'a, 'cb) CacheTable
     \<Rightarrow> duration \<times> ('k, 'v, 'a, 'cb) CacheTable" where
  "sweep now [] smallestDuration ct = (smallestDuration, ct)"
| "sweep now (k # ks) smallestDuration ct =
     (case items ct k of
        None \<Rightarrow> sweep now ks smallestDuration ct
      | Some v \<Rightarrow>
          if lifeSpan (heap ct v) = 0 then sweep now ks smallestDuration ct
          else if curDuration now (heap ct v) \<le>s 0
            then sweep now ks smallestDuration (snd (deleteInternal k ct))
          else if curDuration now (heap ct v) <s smallestDuration \<or> smallestDuration = 0
            then sweep now ks (curDuration now (heap ct v)) ct
          else sweep now ks smallestDuration ct)"

definition expirationCheck ::
  "time \<Rightarrow> 'k list \<Rightarrow> ('k, 'v, 'a, 'cb) CacheTable \<Rightarrow> ('k, 'v, 'a, 'cb) CacheTable" where
  "expirationCheck now order ct =
     (let ct1 = stopTimer (emit (ExpirationCheckRun now) ct);
          (smallestDuration, ct2) = sweep now order 0 ct1;
          ct3 = ct2\<lparr>cleanupDuration := smallestDuration\<rparr>
      in if 0 <s smallestDuration
         then ct3\<lparr>cleanupTimer := Some (Armed smallestDuration)\<rparr>
         else ct3)"

subsection \<open>Adding\<close>

definition addInternal ::
  "time \<Rightarrow> 'k list \<Rightarrow> addr \<Rightarrow> ('k, 'v, 'a, 'cb) CacheTable \<Rightarrow> ('k, 'v, 'a, 'cb) CacheTable" where
  "addInternal now order item ct =
     (let ct1 = emit (MapStore (key (heap ct item)) item)
                  (ct\<lparr>items := (items ct)(key (heap ct item) \<mapsto> item)\<rparr>);
          expDur = cleanupDuration ct1;
          ct2 = fold (\<lambda>callback. emit (AddedItemCall callback item)) (addedItem ct1) ct1
      in if 0 <s lifeSpan (heap ct2 item) \<and> (expDur = 0 \<or> lifeSpan (heap ct2 item) <s expDur)
         then expirationCheck now order ct2
         else ct2)"

text \<open>\<^verbatim>\<open>Add\<close>: \<open>tNew\<close> is the clock reading of \<^verbatim>\<open>NewCacheItem\<close>, \<open>tChk\<close> the one of the
  expiration check that the insertion may start, \<open>order\<close> the range order of that check.\<close>

definition Add ::
  "time \<Rightarrow> time \<Rightarrow> 'k list \<Rightarrow> 'k \<Rightarrow> 'v \<Rightarrow> duration \<Rightarrow> ('k, 'v, 'a, 'cb) CacheTable
     \<Rightarrow> addr \<times> ('k, 'v, 'a, 'cb) CacheTable" where
  "Add tNew tChk order k v ls ct =
     (let (item, ct1) = NewCacheItem tNew k v ls ct
      in (item, addInternal tChk order item ct1))"

definition NotFoundAdd ::
  "time \<Rightarrow> time \<Rightarrow> 'k list \<Rightarrow> 'k \<Rightarrow> duration \<Rightarrow> 'v \<Rightarrow> ('k, 'v, 'a, 'cb) CacheTable
     \<Rightarrow> bool \<times> ('k, 'v, 'a, 'cb) CacheTable" where
  "NotFoundAdd tNew tChk order k ls v ct =
     (case items ct k of
        Some _ \<Rightarrow> (False, ct)
      | None \<Rightarrow>
          let (item, ct1) = NewCacheItem tNew k v ls ct
          in (True, addInternal tChk order item ct1))"

subsection \<open>Reading\<close>

text \<open>\<^verbatim>\<open>Value\<close>: on a hit the entry is kept alive at clock reading \<open>tNew\<close> and returned.
  On a miss the loader, if there is one, is called; its item's data and life span go
  through \<^verbatim>\<open>Add\<close>, and the loader's own item is what is returned.\<close>

definition Value ::
  "time \<Rightarrow> time \<Rightarrow> 'k list \<Rightarrow> 'k \<Rightarrow> 'a list \<Rightarrow> ('k, 'v, 'a, 'cb) CacheTable
     \<Rightarrow> (error + addr) \<times> ('k, 'v, 'a, 'cb) CacheTable" where
  "Value tNew tChk order k args ct =
     (case items ct k of
        Some r \<Rightarrow> (Inr r, ct\<lparr>heap := (heap ct)(r := KeepAlive tNew (heap ct r))\<rparr>)
      | None \<Rightarrow>
          (case loadData ct of
             Some f \<Rightarrow>
               let ct1 = emit (LoadDataCall k args) ct
               in (case f k args of
                     Some item \<Rightarrow>
                       (Inr item,
                        snd (Add tNew tChk order k (data (heap ct1 item)) (lifeSpan (heap ct1 item)) ct1))
                   | None \<Rightarrow> (Inl ErrCacheNotFoundOrLoadable, ct1))
           | None \<Rightarrow> (Inl ErrCacheNotFound, ct)))"

subsection \<open>Flushing\<close>

definition Flush :: "('k, 'v, 'a, 'cb) CacheTable \<Rightarrow> ('k, 'v, 'a, 'cb) CacheTable" where
  "Flush ct =
     stopTimer (ct\<lparr>items := Map.empty, cleanupDuration := 0\<rparr>)"

section \<open>The most accessed entries\<close>

record 'k CacheItemPair =
  Key :: 'k
  AccessCount :: "64 word"

text \<open>\<^verbatim>\<open>CacheItemPairList.Less\<close>, on the two elements compared: the pair with the greater
  count comes first.\<close>

definition Less :: "'k CacheItemPair \<Rightarrow> 'k CacheItemPair \<Rightarrow> bool" where
  "Less pi pj = (AccessCount pj <s AccessCount pi)"

text \<open>The first loop of \<^verbatim>\<open>MostAccessed\<close>: one pair for every key the range yields.\<close>

fun pairs :: "'k list \<Rightarrow> ('k, 'v, 'a, 'cb) CacheTable \<Rightarrow> 'k CacheItemPair list" where
  "pairs [] ct = []"
| "pairs (k # ks) ct =
     (case items ct k of
        None \<Rightarrow> pairs ks ct
      | Some v \<Rightarrow> \<lparr>Key = k, AccessCount = accessCount (heap ct v)\<rparr> # pairs ks ct)"

text \<open>The second loop: \<open>c\<close> counts the pairs visited, and the loop breaks when \<open>c\<close> has
  reached the limit (the parameter \<^verbatim>\<open>count\<close> of the source); the entry of a pair is looked up again in the map.\<close>

fun collect ::
  "64 word \<Rightarrow> 64 word \<Rightarrow> 'k CacheItemPair list \<Rightarrow> ('k, 'v, 'a, 'cb) CacheTable
     \<Rightarrow> addr list \<Rightarrow> addr list" where
  "collect limit c [] ct r = r"
| "collect limit c (v # p) ct r =
     (if limit \<le>s c then r
      else collect limit (c + 1) p ct
             (case items ct (Key v) of Some item \<Rightarrow> r @ [item] | None \<Rightarrow> r))"

text \<open>\<^verbatim>\<open>MostAccessed\<close>. The library's \<^verbatim>\<open>sort.Sort\<close> is the parameter \<open>srt\<close>: the
  properties below hold for every function that returns its argument rearranged so that
  no element is \<^verbatim>\<open>Less\<close> than one before it, which is all \<^verbatim>\<open>sort.Sort\<close> promises.\<close>

definition MostAccessed ::
  "('k CacheItemPair list \<Rightarrow> 'k CacheItemPair list) \<Rightarrow> 'k list \<Rightarrow> 64 word
     \<Rightarrow> ('k, 'v, 'a, 'cb) CacheTable \<Rightarrow> addr list" where
  "MostAccessed srt order limit ct = collect limit 0 (srt (pairs order ct)) ct []"

text \<open>A sort with this contract, for the examples: insertion sort by descending count.\<close>

definition exSort :: "'k CacheItemPair list \<Rightarrow> 'k CacheItemPair list" where
  "exSort p = sort_key (\<lambda>x. - sint (AccessCount x)) p"

section \<open>The entry lock\<close>


















section \<open>Notions used to state the properties\<close>

text \<open>The events a call has added to the trace.\<close>

definition newEvents ::
  "('k, 'v, 'a, 'cb) CacheTable \<Rightarrow> ('k, 'v, 'a, 'cb) CacheTable \<Rightarrow> ('k, 'a, 'cb) event list" where
  "newEvents ct ct' = drop (length (trace ct)) (trace ct')"


definition isLoad :: "('k, 'a, 'cb) event \<Rightarrow> bool" where
  "isLoad e = (case e of LoadDataCall _ _ \<Rightarrow> True | _ \<Rightarrow> False)"

definition isStore :: "('k, 'a, 'cb) event \<Rightarrow> bool" where
  "isStore e = (case e of MapStore _ _ \<Rightarrow> True | _ \<Rightarrow> False)"

definition isCallback :: "('k, 'a, 'cb) event \<Rightarrow> bool" where
  "isCallback e = (case e of AddedItemCall _ _ \<Rightarrow> True | DeletedItemCall _ _ \<Rightarrow> True
                     | AboutToExpireCall _ _ \<Rightarrow> True | _ \<Rightarrow> False)"

definition isDeleteEvent :: "('k, 'a, 'cb) event \<Rightarrow> bool" where
  "isDeleteEvent e = (case e of DeletedItemCall _ _ \<Rightarrow> True | AboutToExpireCall _ _ \<Rightarrow> True
                       | MapDelete _ \<Rightarrow> True | _ \<Rightarrow> False)"

text \<open>An entry is due at \<open>now\<close> when the expiration check would delete it, and pending
  when the check keeps it and counts its remaining time.\<close>

definition due :: "time \<Rightarrow> ('k, 'v, 'a, 'cb) CacheTable \<Rightarrow> 'k \<Rightarrow> bool" where
  "due now ct k = (case items ct k of None \<Rightarrow> False
     | Some v \<Rightarrow> lifeSpan (heap ct v) \<noteq> 0 \<and> curDuration now (heap ct v) \<le>s 0)"

definition pending :: "time \<Rightarrow> ('k, 'v, 'a, 'cb) CacheTable \<Rightarrow> 'k \<Rightarrow> addr \<Rightarrow> bool" where
  "pending now ct k v =
     (items ct k = Some v \<and> lifeSpan (heap ct v) \<noteq> 0 \<and> \<not> curDuration now (heap ct v) \<le>s 0)"

text \<open>The scheduler running any number of times: each run has its own clock reading and
  its own range order.\<close>

definition runChecks ::
  "(time \<times> 'k list) list \<Rightarrow> ('k, 'v, 'a, 'cb) CacheTable \<Rightarrow> ('k, 'v, 'a, 'cb) CacheTable" where
  "runChecks runs ct = fold (\<lambda>(now, order). expirationCheck now order) runs ct"

text \<open>The timer agrees with the recorded duration: the duration is never negative, and
  a timer is armed exactly when the duration is positive, and then for that duration.
  The expiration check and \<^verbatim>\<open>Flush\<close> leave the table so, and the other operations keep
  it so.\<close>

definition timerConsistent :: "('k, 'v, 'a, 'cb) CacheTable \<Rightarrow> bool" where
  "timerConsistent ct =
     (0 \<le>s cleanupDuration ct
      \<and> (\<forall>d. cleanupTimer ct = Some (Armed d) \<longleftrightarrow>
               0 <s cleanupDuration ct \<and> d = cleanupDuration ct))"

section \<open>Example tables\<close>

text \<open>A table with the entries \<open>A\<close> (permanent, read 5 times), \<open>B\<close> (life span 10,
  read once) and \<open>C\<close> (life span 100, read 3 times), all last read at time 0, and a
  loader that knows the key \<open>D\<close> only: it returns the item at address 3.\<close>

definition exHeap :: "addr \<Rightarrow> (string, nat, string) CacheItem" where
  "exHeap a =
     (if a = 0 then \<lparr>key = ''A'', data = 11, lifeSpan = 0, createTime = 0, accessedTime = 0,
                     accessCount = 5, aboutToExpire = [''onExpireA'']\<rparr>
      else if a = 1 then \<lparr>key = ''B'', data = 22, lifeSpan = 10, createTime = 0, accessedTime = 0,
                     accessCount = 1, aboutToExpire = []\<rparr>
      else if a = 2 then \<lparr>key = ''C'', data = 33, lifeSpan = 100, createTime = 0, accessedTime = 0,
                     accessCount = 3, aboutToExpire = [''onExpireC'']\<rparr>
      else \<lparr>key = ''L'', data = 44, lifeSpan = 50, createTime = 2, accessedTime = 3,
                     accessCount = 7, aboutToExpire = [''onExpireL'']\<rparr>)"

definition exLoader :: "string \<Rightarrow> nat list \<Rightarrow> addr option" where
  "exLoader k args = (if k = ''D'' then Some 3 else None)"

definition exTable :: "(string, nat, nat, string) CacheTable" where
  "exTable = \<lparr>name = ''example'', items = [''A'' \<mapsto> 0, ''B'' \<mapsto> 1, ''C'' \<mapsto> 2],
              cleanupTimer = Some (Armed 10), cleanupDuration = 10,
              loadData = Some exLoader, addedItem = [''onAdded''], deletedItem = [''onDeleted''],
              heap = exHeap, nextAddr = 4, trace = []\<rparr>"


section \<open>Basic facts\<close>

lemma fold_emit:
  "fold (\<lambda>callback. emit (f callback)) cbs ct = ct\<lparr>trace := trace ct @ map f cbs\<rparr>"
  by (induction cbs arbitrary: ct) (simp_all add: emit_def)

lemma stopTimer_fields:
  "items (stopTimer ct) = items ct" "heap (stopTimer ct) = heap ct"
  "trace (stopTimer ct) = trace ct" "nextAddr (stopTimer ct) = nextAddr ct"
  "cleanupDuration (stopTimer ct) = cleanupDuration ct"
  "loadData (stopTimer ct) = loadData ct" "addedItem (stopTimer ct) = addedItem ct"
  "deletedItem (stopTimer ct) = deletedItem ct"
  by (simp_all add: stopTimer_def split: option.splits)

lemma stopTimer_not_armed: "cleanupTimer (stopTimer ct) \<noteq> Some (Armed d)"
  by (simp add: stopTimer_def split: option.splits)

lemma deleteInternal_present:
  assumes "items ct k = Some item"
  shows "deleteInternal k ct =
    (Inr item,
     ct\<lparr>items := (items ct)(k := None),
        trace := trace ct @ map (\<lambda>cb. DeletedItemCall cb item) (deletedItem ct)
                 @ map (\<lambda>cb. AboutToExpireCall cb k) (aboutToExpire (heap ct item))
                 @ [MapDelete k]\<rparr>)"
  using assms by (simp add: deleteInternal_def fold_emit emit_def)

lemma deleteInternal_absent:
  "items ct k = None \<Longrightarrow> deleteInternal k ct = (Inl ErrCacheNotFound, ct)"
  by (simp add: deleteInternal_def)

subsection \<open>The loop of the expiration check\<close>

lemma sweep_frame:
  "heap (snd (sweep now ks s ct)) = heap ct
   \<and> nextAddr (snd (sweep now ks s ct)) = nextAddr ct
   \<and> cleanupTimer (snd (sweep now ks s ct)) = cleanupTimer ct
   \<and> cleanupDuration (snd (sweep now ks s ct)) = cleanupDuration ct
   \<and> loadData (snd (sweep now ks s ct)) = loadData ct
   \<and> addedItem (snd (sweep now ks s ct)) = addedItem ct
   \<and> deletedItem (snd (sweep now ks s ct)) = deletedItem ct
   \<and> name (snd (sweep now ks s ct)) = name ct"
proof (induction ks arbitrary: s ct)
  case Nil
  show ?case by simp
next
  case (Cons k ks)
  show ?case
  proof (cases "items ct k")
    case None
    then show ?thesis using Cons.IH by simp
  next
    case (Some v)
    then show ?thesis using Cons.IH by (simp add: deleteInternal_present)
  qed
qed

lemma sweep_items:
  "items (snd (sweep now ks s ct)) k' =
     (if k' \<in> set ks \<and> due now ct k' then None else items ct k')"
proof (induction ks arbitrary: s ct)
  case Nil
  show ?case by simp
next
  case (Cons k ks)
  show ?case
  proof (cases "items ct k")
    case None
    then show ?thesis using Cons.IH by (auto simp: due_def)
  next
    case (Some v)
    show ?thesis
    proof (cases "lifeSpan (heap ct v) \<noteq> 0 \<and> curDuration now (heap ct v) \<le>s 0")
      case True
      let ?ct' = "snd (deleteInternal k ct)"
      have d: "due now ?ct' k' = (k' \<noteq> k \<and> due now ct k')"
        using Some by (auto simp add: deleteInternal_present due_def split: option.splits)
      have i: "items ?ct' k' = (if k' = k then None else items ct k')"
        using Some by (simp add: deleteInternal_present)
      have "sweep now (k # ks) s ct = sweep now ks s ?ct'"
        using Some True by simp
      then show ?thesis using Cons.IH[of s ?ct'] d i True Some by (auto simp: due_def)
    next
      case False
      then have nd: "\<not> due now ct k" using Some by (simp add: due_def)
      from False Some have "\<exists>s'. sweep now (k # ks) s ct = sweep now ks s' ct"
        by auto
      then obtain s' where "sweep now (k # ks) s ct = sweep now ks s' ct" ..
      then show ?thesis using Cons.IH[of s' ct] nd by auto
    qed
  qed
qed

lemma sweep_trace:
  "\<exists>es. trace (snd (sweep now ks s ct)) = trace ct @ es \<and> (\<forall>e\<in>set es. isDeleteEvent e)"
proof (induction ks arbitrary: s ct)
  case Nil
  show ?case by simp
next
  case (Cons k ks)
  show ?case
  proof (cases "items ct k")
    case None
    then show ?thesis using Cons.IH by simp
  next
    case (Some v)
    show ?thesis
    proof (cases "lifeSpan (heap ct v) \<noteq> 0 \<and> curDuration now (heap ct v) \<le>s 0")
      case True
      let ?ct' = "snd (deleteInternal k ct)"
      have e: "sweep now (k # ks) s ct = sweep now ks s ?ct'"
        using Some True by simp
      obtain es where es: "trace (snd (sweep now ks s ?ct')) = trace ?ct' @ es"
        "\<forall>e\<in>set es. isDeleteEvent e" using Cons.IH[of s ?ct'] by blast
      let ?ds = "map (\<lambda>cb. DeletedItemCall cb v) (deletedItem ct)
                 @ map (\<lambda>cb. AboutToExpireCall cb k) (aboutToExpire (heap ct v))
                 @ [MapDelete k]"
      have t: "trace ?ct' = trace ct @ ?ds"
        using Some by (simp add: deleteInternal_present)
      have "\<forall>e\<in>set (?ds @ es). isDeleteEvent e"
        using es(2) by (auto simp: isDeleteEvent_def)
      moreover have "trace (snd (sweep now (k # ks) s ct)) = trace ct @ (?ds @ es)"
        using e es(1) t by simp
      ultimately show ?thesis by blast
    next
      case False
      from False Some have "\<exists>s'. sweep now (k # ks) s ct = sweep now ks s' ct"
        by auto
      then obtain s' where "sweep now (k # ks) s ct = sweep now ks s' ct" ..
      then show ?thesis using Cons.IH[of s' ct] by auto
    qed
  qed
qed

lemma pending_after_delete:
  assumes "items ct k = Some v" "lifeSpan (heap ct v) \<noteq> 0 \<and> curDuration now (heap ct v) \<le>s 0"
  shows "pending now (snd (deleteInternal k ct)) k' v' = pending now ct k' v'"
  using assms by (auto simp: pending_def deleteInternal_present)

text \<open>The smallest duration the loop returns, started from \<open>s\<close>: it is \<open>s\<close> or the
  remaining time of a pending entry, it is positive unless it is the initial \<open>0\<close>, and it
  is below \<open>s\<close> (when \<open>s\<close> is not \<open>0\<close>) and below the remaining time of every pending
  entry visited.\<close>

lemma sweep_smallest:
  assumes "s = 0 \<or> 0 <s s"
  shows "(fst (sweep now ks s ct) = s
          \<or> (\<exists>k\<in>set ks. \<exists>v. pending now ct k v
                \<and> curDuration now (heap ct v) = fst (sweep now ks s ct)))
       \<and> (fst (sweep now ks s ct) = 0 \<or> 0 <s fst (sweep now ks s ct))
       \<and> (s \<noteq> 0 \<longrightarrow> fst (sweep now ks s ct) \<le>s s)
       \<and> (\<forall>k\<in>set ks. \<forall>v. pending now ct k v \<longrightarrow>
             0 <s fst (sweep now ks s ct)
             \<and> fst (sweep now ks s ct) \<le>s curDuration now (heap ct v))"
  using assms
proof (induction ks arbitrary: s ct)
  case Nil
  then show ?case by auto
next
  case (Cons k ks)
  show ?case
  proof (cases "items ct k")
    case None
    then have e: "sweep now (k # ks) s ct = sweep now ks s ct" by simp
    have "\<And>v. \<not> pending now ct k v" using None by (simp add: pending_def)
    then show ?thesis using Cons.IH[OF Cons.prems, of ct] e by auto
  next
    case (Some v)
    have pk: "\<And>v'. pending now ct k v' \<Longrightarrow> v' = v" using Some by (simp add: pending_def)
    consider (zero) "lifeSpan (heap ct v) = 0"
      | (due) "lifeSpan (heap ct v) \<noteq> 0" "curDuration now (heap ct v) \<le>s 0"
      | (less) "lifeSpan (heap ct v) \<noteq> 0" "\<not> curDuration now (heap ct v) \<le>s 0"
               "curDuration now (heap ct v) <s s \<or> s = 0"
      | (keep) "lifeSpan (heap ct v) \<noteq> 0" "\<not> curDuration now (heap ct v) \<le>s 0"
               "\<not> (curDuration now (heap ct v) <s s \<or> s = 0)"
      by blast
    then show ?thesis
    proof cases
      case zero
      then have e: "sweep now (k # ks) s ct = sweep now ks s ct" using Some by simp
      have "\<And>v'. \<not> pending now ct k v'" using Some zero by (auto simp add: pending_def)
      then show ?thesis using Cons.IH[OF Cons.prems, of ct] e by auto
    next
      case due
      let ?ct' = "snd (deleteInternal k ct)"
      have e: "sweep now (k # ks) s ct = sweep now ks s ?ct'" using Some due by simp
      have p: "\<And>k' v'. pending now ?ct' k' v' = pending now ct k' v'"
        using pending_after_delete[OF Some] due by blast
      have h: "heap ?ct' = heap ct" using Some by (simp add: deleteInternal_present)
      have "\<And>v'. \<not> pending now ct k v'" using Some due by (auto simp add: pending_def)
      then show ?thesis using Cons.IH[OF Cons.prems, of ?ct'] unfolding e p h by auto
    next
      case less
      let ?c = "curDuration now (heap ct v)"
      have e: "sweep now (k # ks) s ct = sweep now ks ?c ct" using Some less by simp
      have c0: "0 <s ?c" using less(2) by (simp add: word_sle_eq word_sless_alt)
      then have cn: "?c \<noteq> 0" by auto
      have pv: "pending now ct k v" using Some less by (simp add: pending_def)
      have cs: "s \<noteq> 0 \<longrightarrow> ?c \<le>s s" using less(3) by (auto simp: word_sle_eq word_sless_alt)
      note IH = Cons.IH[of ?c ct, OF disjI2, OF c0, unfolded e[symmetric]]
      let ?r = "fst (sweep now (k # ks) s ct)"
      have r1: "?r = ?c \<or> (\<exists>k\<in>set ks. \<exists>v. pending now ct k v \<and> curDuration now (heap ct v) = ?r)"
        using IH by blast
      have r2: "?r = 0 \<or> 0 <s ?r" using IH by blast
      have r3: "?r \<le>s ?c" using IH cn by blast
      have r4: "\<forall>k\<in>set ks. \<forall>v. pending now ct k v \<longrightarrow> 0 <s ?r \<and> ?r \<le>s curDuration now (heap ct v)"
        using IH by blast
      have r5: "0 <s ?r" using r1 r4 c0 by auto
      have a: "?r = s \<or> (\<exists>k\<in>set (k # ks). \<exists>v. pending now ct k v \<and> curDuration now (heap ct v) = ?r)"
        using r1 pv by auto
      have b: "s \<noteq> 0 \<longrightarrow> ?r \<le>s s" using r3 cs by (auto simp: word_sle_eq)
      have c: "\<forall>k\<in>set (k # ks). \<forall>v. pending now ct k v \<longrightarrow> 0 <s ?r \<and> ?r \<le>s curDuration now (heap ct v)"
        using r4 r5 r3 pk by auto
      show ?thesis using a r2 b c by blast
    next
      case keep
      let ?c = "curDuration now (heap ct v)"
      have e: "sweep now (k # ks) s ct = sweep now ks s ct" using Some keep by simp
      have s0: "0 <s s" using keep(3) Cons.prems by blast
      have sc: "s \<le>s ?c" using keep(3) by (auto simp: word_sle_eq word_sless_alt)
      note IH = Cons.IH[of s ct, OF Cons.prems, unfolded e[symmetric]]
      let ?r = "fst (sweep now (k # ks) s ct)"
      have r1: "?r = s \<or> (\<exists>k\<in>set ks. \<exists>v. pending now ct k v \<and> curDuration now (heap ct v) = ?r)"
        using IH by blast
      have r2: "?r = 0 \<or> 0 <s ?r" using IH by blast
      have r3: "?r \<le>s s" using IH s0 by auto
      have r4: "\<forall>k\<in>set ks. \<forall>v. pending now ct k v \<longrightarrow> 0 <s ?r \<and> ?r \<le>s curDuration now (heap ct v)"
        using IH by blast
      have r5: "0 <s ?r" using r1 r4 s0 by auto
      have a: "?r = s \<or> (\<exists>k\<in>set (k # ks). \<exists>v. pending now ct k v \<and> curDuration now (heap ct v) = ?r)"
        using r1 by auto
      have c: "\<forall>k\<in>set (k # ks). \<forall>v. pending now ct k v \<longrightarrow> 0 <s ?r \<and> ?r \<le>s curDuration now (heap ct v)"
        using r4 r5 r3 sc pk by (auto simp: word_sle_eq)
      show ?thesis using a r2 r3 c by blast
    qed
  qed
qed

subsection \<open>The expiration check\<close>

lemma expirationCheck_unfold:
  "expirationCheck now order ct =
     (let r = sweep now order 0 (stopTimer (emit (ExpirationCheckRun now) ct))
      in if 0 <s fst r
         then (snd r)\<lparr>cleanupDuration := fst r, cleanupTimer := Some (Armed (fst r))\<rparr>
         else (snd r)\<lparr>cleanupDuration := fst r\<rparr>)"
  by (simp add: expirationCheck_def Let_def split_beta)

lemma due_cong:
  "items ct' = items ct \<Longrightarrow> heap ct' = heap ct \<Longrightarrow> due now ct' k = due now ct k"
  by (simp add: due_def split: option.splits)


lemma expirationCheck_heap: "heap (expirationCheck now order ct) = heap ct"
  by (simp add: expirationCheck_unfold Let_def sweep_frame stopTimer_fields emit_def)

lemma expirationCheck_frame:
  "nextAddr (expirationCheck now order ct) = nextAddr ct"
  "loadData (expirationCheck now order ct) = loadData ct"
  "addedItem (expirationCheck now order ct) = addedItem ct"
  "deletedItem (expirationCheck now order ct) = deletedItem ct"
  by (simp_all add: expirationCheck_unfold Let_def sweep_frame stopTimer_fields emit_def)

lemma expirationCheck_items:
  "items (expirationCheck now order ct) k =
     (if k \<in> set order \<and> due now ct k then None else items ct k)"
proof -
  let ?ct1 = "stopTimer (emit (ExpirationCheckRun now) ct)"
  have "due now ?ct1 k = due now ct k"
    by (rule due_cong) (simp_all add: stopTimer_fields emit_def)
  moreover have "items ?ct1 k = items ct k" by (simp add: stopTimer_fields emit_def)
  ultimately show ?thesis
    by (simp add: expirationCheck_unfold Let_def sweep_items)
qed

lemma expirationCheck_duration:
  "cleanupDuration (expirationCheck now order ct) =
     fst (sweep now order 0 (stopTimer (emit (ExpirationCheckRun now) ct)))"
  by (simp add: expirationCheck_unfold Let_def)

lemma expirationCheck_timer:
  "cleanupTimer (expirationCheck now order ct) = Some (Armed d) \<longleftrightarrow>
     0 <s cleanupDuration (expirationCheck now order ct)
     \<and> d = cleanupDuration (expirationCheck now order ct)"
  by (auto simp add: expirationCheck_unfold Let_def sweep_frame stopTimer_not_armed)

lemma expirationCheck_trace:
  "\<exists>es. trace (expirationCheck now order ct) = trace ct @ ExpirationCheckRun now # es
        \<and> (\<forall>e\<in>set es. isDeleteEvent e)"
proof -
  let ?ct1 = "stopTimer (emit (ExpirationCheckRun now) ct)"
  obtain es where "trace (snd (sweep now order 0 ?ct1)) = trace ?ct1 @ es"
     "\<forall>e\<in>set es. isDeleteEvent e" using sweep_trace by blast
  then show ?thesis
    by (simp add: expirationCheck_unfold Let_def stopTimer_fields emit_def)
qed

section \<open>The expiration check reconciles the table (claim C1)\<close>




section \<open>Facts about adding\<close>

lemma NewCacheItem_fst: "fst (NewCacheItem now k v ls ct) = nextAddr ct"
  by (simp add: NewCacheItem_def)

lemma NewCacheItem_snd:
  "snd (NewCacheItem now k v ls ct) =
     ct\<lparr>heap := (heap ct)(nextAddr ct :=
            \<lparr>key = k, data = v, lifeSpan = ls, createTime = now, accessedTime = now,
             accessCount = 0, aboutToExpire = []\<rparr>),
         nextAddr := Suc (nextAddr ct)\<rparr>"
  by (simp add: NewCacheItem_def)

text \<open>The table right after the insertion and the added-item callbacks of
  \<^verbatim>\<open>addInternal\<close>, before the expiration check it may start.\<close>

lemma addInternal_unfold:
  "addInternal now order item ct =
     (let ct2 = ct\<lparr>items := (items ct)(key (heap ct item) \<mapsto> item),
                   trace := trace ct @ MapStore (key (heap ct item)) item
                            # map (\<lambda>cb. AddedItemCall cb item) (addedItem ct)\<rparr>
      in if 0 <s lifeSpan (heap ct item)
            \<and> (cleanupDuration ct = 0 \<or> lifeSpan (heap ct item) <s cleanupDuration ct)
         then expirationCheck now order ct2 else ct2)"
  by (auto simp add: addInternal_def Let_def fold_emit emit_def)

lemma Add_unfold:
  "Add tNew tChk order k v ls ct =
     (nextAddr ct,
      let ct2 = ct\<lparr>heap := (heap ct)(nextAddr ct :=
                      \<lparr>key = k, data = v, lifeSpan = ls, createTime = tNew, accessedTime = tNew,
                       accessCount = 0, aboutToExpire = []\<rparr>),
                   nextAddr := Suc (nextAddr ct),
                   items := (items ct)(k \<mapsto> nextAddr ct),
                   trace := trace ct @ MapStore k (nextAddr ct)
                            # map (\<lambda>cb. AddedItemCall cb (nextAddr ct)) (addedItem ct)\<rparr>
      in if 0 <s ls \<and> (cleanupDuration ct = 0 \<or> ls <s cleanupDuration ct)
         then expirationCheck tChk order ct2 else ct2)"
  by (auto simp add: Add_def NewCacheItem_def addInternal_unfold Let_def)


lemma runChecks_Nil: "runChecks [] ct = ct" by (simp add: runChecks_def)
lemma runChecks_Cons:
  "runChecks ((now, order) # runs) ct = runChecks runs (expirationCheck now order ct)"
  by (simp add: runChecks_def)

lemma zero_lifeSpan_kept:
  assumes "items ct k = Some v" "lifeSpan (heap ct v) = 0"
  shows "items (runChecks runs ct) k = Some v \<and> heap (runChecks runs ct) = heap ct"
  using assms
proof (induction runs arbitrary: ct)
  case Nil
  then show ?case by (simp add: runChecks_Nil)
next
  case (Cons r runs)
  obtain now order where r: "r = (now, order)" by (cases r)
  let ?ct' = "expirationCheck now order ct"
  have "\<not> due now ct k" using Cons.prems by (simp add: due_def)
  then have i: "items ?ct' k = Some v" using Cons.prems by (simp add: expirationCheck_items)
  have h: "heap ?ct' = heap ct" by (rule expirationCheck_heap)
  from Cons.IH[of ?ct'] i h Cons.prems(2) show ?case
    by (simp add: r runChecks_Cons)
qed

section \<open>The timer and the recorded duration\<close>

lemma expirationCheck_duration_sign:
  "cleanupDuration (expirationCheck now order ct) = 0
   \<or> 0 <s cleanupDuration (expirationCheck now order ct)"
  using sweep_smallest[of 0 now order "stopTimer (emit (ExpirationCheckRun now) ct)"]
  by (simp add: expirationCheck_duration)

lemma timerConsistent_expirationCheck: "timerConsistent (expirationCheck now order ct)"
  using expirationCheck_duration_sign[of now order ct] expirationCheck_timer[of now order ct]
  by (auto simp add: timerConsistent_def word_sle_eq word_sless_alt)


lemma timerConsistent_cong:
  "cleanupTimer ct' = cleanupTimer ct \<Longrightarrow> cleanupDuration ct' = cleanupDuration ct \<Longrightarrow>
     timerConsistent ct' = timerConsistent ct"
  by (simp add: timerConsistent_def)

lemma timerConsistent_Add:
  assumes "timerConsistent ct"
  shows "timerConsistent (snd (Add tNew tChk order k v ls ct))"
proof (cases "0 <s ls \<and> (cleanupDuration ct = 0 \<or> ls <s cleanupDuration ct)")
  case True
  then show ?thesis by (simp add: Add_unfold Let_def timerConsistent_expirationCheck)
next
  case False
  then have "cleanupTimer (snd (Add tNew tChk order k v ls ct)) = cleanupTimer ct"
    "cleanupDuration (snd (Add tNew tChk order k v ls ct)) = cleanupDuration ct"
    by (auto simp add: Add_unfold Let_def)
  then show ?thesis using assms timerConsistent_cong by blast
qed

lemma timerConsistent_Delete:
  assumes "timerConsistent ct"
  shows "timerConsistent (snd (Delete k ct))"
proof (cases "items ct k")
  case None
  then show ?thesis using assms by (simp add: Delete_def deleteInternal_absent)
next
  case (Some a)
  then show ?thesis using assms
    by (simp add: Delete_def deleteInternal_present timerConsistent_def)
qed



section \<open>When an insertion starts an expiration check (claim C2)\<close>



section \<open>Permanent entries are exempt from the sweep (claim C3)\<close>

text \<open>
  Claim C3. An entry whose life span is \<open>0\<close> is never removed by the scheduler: whatever
  the table, after any number of runs of \<^verbatim>\<open>expirationCheck\<close>, at any times and over any
  range orders, the entry is still stored under its key, unchanged. In particular an
  entry added with life span \<open>0\<close> is still there after the runs.
\<close>

theorem zero_lifeSpan_never_swept:
  "(items ct k = Some v \<and> lifeSpan (heap ct v) = 0 \<longrightarrow>
      items (runChecks runs ct) k = Some v \<and> heap (runChecks runs ct) v = heap ct v)
   \<and> items (runChecks runs (snd (Add tNew tChk order k d 0 ct))) k = Some (nextAddr ct)
   \<and> lifeSpan (heap (runChecks runs (snd (Add tNew tChk order k d 0 ct))) (nextAddr ct)) = 0"
proof -
  let ?ct2 = "snd (Add tNew tChk order k d 0 ct)"
  have a: "items ?ct2 k = Some (nextAddr ct)" "lifeSpan (heap ?ct2 (nextAddr ct)) = 0"
    by (simp_all add: Add_unfold)
  from zero_lifeSpan_kept[OF a] zero_lifeSpan_kept[of ct k v runs] a(2)
  show ?thesis by auto
qed

theorem zero_lifeSpan_never_swept_witness:
  "items exTable ''A'' = Some 0 \<and> lifeSpan (heap exTable 0) = 0
   \<and> items (runChecks [(20, [''B'', ''A'', ''C'']), (9000, [''A'', ''C''])] exTable) ''A'' = Some 0"
proof -
  have h: "items exTable ''A'' = Some 0 \<and> lifeSpan (heap exTable 0) = 0"
    by (simp add: exTable_def exHeap_def)
  from zero_lifeSpan_never_swept[of exTable "''A''" 0] h show ?thesis by blast
qed

section \<open>Deleting fires the callbacks, then removes the key (claim C4)\<close>

text \<open>
  Claim C4, as the code has it. When the key is present, \<^verbatim>\<open>Delete(key)\<close> returns the
  entry and does, in this order and nothing else: one call of every delete callback of
  the table, with the entry, in the order of the table's list; then one call of every
  expiry callback of the entry, with the key, in the order of the entry's list; then the
  removal of the key from the map. So the key exists while every callback runs, and
  does not exist after the call. The table's callbacks run before the entry's.
\<close>

theorem Delete_callbacks_then_remove:
  assumes "items ct k = Some item"
  shows "fst (Delete k ct) = Inr item
    \<and> newEvents ct (snd (Delete k ct)) =
        map (\<lambda>cb. DeletedItemCall cb item) (deletedItem ct)
        @ map (\<lambda>cb. AboutToExpireCall cb k) (aboutToExpire (heap ct item))
        @ [MapDelete k]
    \<and> items (snd (Delete k ct)) = (items ct)(k := None)
    \<and> heap (snd (Delete k ct)) = heap ct
    \<and> Exists k ct \<and> \<not> Exists k (snd (Delete k ct))"
  using assms by (simp add: Delete_def deleteInternal_present Exists_def newEvents_def)

theorem Delete_callbacks_then_remove_witness:
  "items exTable ''C'' = Some 2
   \<and> newEvents exTable (snd (Delete ''C'' exTable)) =
       [DeletedItemCall ''onDeleted'' 2, AboutToExpireCall ''onExpireC'' ''C'', MapDelete ''C'']
   \<and> \<not> Exists ''C'' (snd (Delete ''C'' exTable))"
proof -
  have h: "items exTable ''C'' = Some 2" by (simp add: exTable_def)
  from Delete_callbacks_then_remove[OF h] show ?thesis
    by (simp add: exTable_def exHeap_def)
qed

text \<open>The order the claim words, the entry's expiry callbacks before the table's delete
  callbacks, is not the order of the code: deleting \<open>C\<close> from the example table, with one
  callback of each kind, calls the table's callback first.\<close>

theorem Delete_order_counterexample:
  "items exTable ''C'' = Some 2
   \<and> deletedItem exTable = [''onDeleted'']
   \<and> aboutToExpire (heap exTable 2) = [''onExpireC'']
   \<and> newEvents exTable (snd (Delete ''C'' exTable)) \<noteq>
       [AboutToExpireCall ''onExpireC'' ''C'', DeletedItemCall ''onDeleted'' 2, MapDelete ''C'']
   \<and> newEvents exTable (snd (Delete ''C'' exTable)) =
       [DeletedItemCall ''onDeleted'' 2, AboutToExpireCall ''onExpireC'' ''C'', MapDelete ''C'']"
  by (simp add: exTable_def exHeap_def Delete_def deleteInternal_def emit_def newEvents_def)

section \<open>Flushing (claim C9)\<close>

text \<open>
  Claim C9. After \<^verbatim>\<open>Flush()\<close>, whatever the table was, \<^verbatim>\<open>Count()\<close> is \<open>0\<close>,
  \<^verbatim>\<open>cleanupDuration\<close> is \<open>0\<close> and no timer is armed; the call adds nothing to the trace, so
  it calls no expiry callback of an entry and no delete callback of the table, and it
  leaves the discarded entries themselves as they were.
\<close>

theorem Flush_empties:
  "Count (Flush ct) = 0
   \<and> items (Flush ct) = Map.empty
   \<and> cleanupDuration (Flush ct) = 0
   \<and> (\<forall>d. cleanupTimer (Flush ct) \<noteq> Some (Armed d))
   \<and> newEvents ct (Flush ct) = []
   \<and> trace (Flush ct) = trace ct
   \<and> heap (Flush ct) = heap ct"
  by (simp add: Flush_def Count_def stopTimer_fields stopTimer_not_armed newEvents_def)

theorem Flush_empties_witness:
  "Count exTable = 3 \<and> cleanupTimer exTable = Some (Armed 10)
   \<and> Count (Flush exTable) = 0 \<and> cleanupDuration (Flush exTable) = 0
   \<and> cleanupTimer (Flush exTable) = Some Stopped
   \<and> filter isCallback (newEvents exTable (Flush exTable)) = []"
proof -
  have "Count exTable = 3" by (simp add: Count_def exTable_def)
  moreover have "cleanupTimer (Flush exTable) = Some Stopped"
    by (simp add: Flush_def stopTimer_def exTable_def)
  moreover have "cleanupTimer exTable = Some (Armed 10)" by (simp add: exTable_def)
  ultimately show ?thesis using Flush_empties[of exTable] by simp
qed

section \<open>The two errors of a read (claim C5)\<close>

text \<open>
  Claim C5. \<^verbatim>\<open>Value(key, args...)\<close> returns \<^verbatim>\<open>ErrCacheNotFound\<close> exactly when the key is
  absent and no loader is set, and \<^verbatim>\<open>ErrCacheNotFoundOrLoadable\<close> exactly when the key is
  absent, a loader is set and the loader returns \<^verbatim>\<open>nil\<close>. Whenever it returns an error,
  the map of entries is as it was: the call has stored and deleted nothing, and has
  changed no entry.
\<close>

theorem Value_errors:
  "(fst (Value tNew tChk order k args ct) = Inl ErrCacheNotFound
      \<longleftrightarrow> items ct k = None \<and> loadData ct = None)
   \<and> (fst (Value tNew tChk order k args ct) = Inl ErrCacheNotFoundOrLoadable
      \<longleftrightarrow> items ct k = None \<and> (\<exists>f. loadData ct = Some f \<and> f k args = None))
   \<and> ((\<exists>e. fst (Value tNew tChk order k args ct) = Inl e) \<longrightarrow>
        items (snd (Value tNew tChk order k args ct)) = items ct
        \<and> heap (snd (Value tNew tChk order k args ct)) = heap ct
        \<and> filter isStore (newEvents ct (snd (Value tNew tChk order k args ct))) = []
        \<and> filter isDeleteEvent (newEvents ct (snd (Value tNew tChk order k args ct))) = [])"
  by (auto simp add: Value_def Let_def emit_def newEvents_def isStore_def isDeleteEvent_def
        split: option.splits)

theorem Value_errors_witness:
  "fst (Value 5 6 [''A'', ''B'', ''C''] ''E'' [] exTable) = Inl ErrCacheNotFoundOrLoadable
   \<and> items (snd (Value 5 6 [''A'', ''B'', ''C''] ''E'' [] exTable)) = items exTable
   \<and> fst (Value 5 6 [''A'', ''B'', ''C''] ''E'' [] (exTable\<lparr>loadData := None\<rparr>))
       = Inl ErrCacheNotFound
   \<and> items (snd (Value 5 6 [''A'', ''B'', ''C''] ''E'' [] (exTable\<lparr>loadData := None\<rparr>)))
       = items (exTable\<lparr>loadData := None\<rparr>)"
proof -
  have 1: "items exTable ''E'' = None \<and> (\<exists>f. loadData exTable = Some f \<and> f ''E'' [] = None)"
    by (simp add: exTable_def exLoader_def)
  have 2: "items (exTable\<lparr>loadData := None\<rparr>) ''E'' = None
           \<and> loadData (exTable\<lparr>loadData := None\<rparr>) = None"
    by (simp add: exTable_def)
  note a = Value_errors[of 5 6 "[''A'', ''B'', ''C'']" "''E''" "[]" exTable]
  note b = Value_errors[of 5 6 "[''A'', ''B'', ''C'']" "''E''" "[]" "exTable\<lparr>loadData := None\<rparr>"]
  from a 1 have a1: "fst (Value 5 6 [''A'', ''B'', ''C''] ''E'' [] exTable)
      = Inl ErrCacheNotFoundOrLoadable" by blast
  from b 2 have b1: "fst (Value 5 6 [''A'', ''B'', ''C''] ''E'' [] (exTable\<lparr>loadData := None\<rparr>))
      = Inl ErrCacheNotFound" by blast
  from a a1 b b1 show ?thesis by auto
qed

section \<open>What an insertion leaves\<close>

text \<open>What \<^verbatim>\<open>Add\<close> leaves: the new entry at a fresh address, stored under the key, and
  swept again only by the check the insertion itself has started.\<close>

lemma filter_delete_events:
  assumes "\<forall>e\<in>set es. isDeleteEvent e"
  shows "filter isStore es = []" "filter isLoad es = []"
  using assms
  by (induction es) (auto simp: isStore_def isLoad_def isDeleteEvent_def split: event.splits)

lemma filter_added_calls:
  "filter isStore (map (\<lambda>cb. AddedItemCall cb a) cbs) = []"
  "filter isLoad (map (\<lambda>cb. AddedItemCall cb a) cbs) = []"
  by (induction cbs) (auto simp: isStore_def isLoad_def)

lemma Add_result:
  fixes ct :: "('k, 'v, 'a, 'cb) CacheTable" and tNew tChk order k v ls
  defines "ct' \<equiv> snd (Add tNew tChk order k v ls ct)"
  shows "fst (Add tNew tChk order k v ls ct) = nextAddr ct"
    and "heap ct' = (heap ct)(nextAddr ct :=
            \<lparr>key = k, data = v, lifeSpan = ls, createTime = tNew, accessedTime = tNew,
             accessCount = 0, aboutToExpire = []\<rparr>)"
    and "nextAddr ct' = Suc (nextAddr ct)"
    and "loadData ct' = loadData ct"
    and "items ct' k =
          (if (0 <s ls \<and> (cleanupDuration ct = 0 \<or> ls <s cleanupDuration ct))
              \<and> k \<in> set order \<and> ls - Sub tChk tNew \<le>s 0
           then None else Some (nextAddr ct))"
    and "k' \<noteq> k \<Longrightarrow> items ct' k' = None \<or> items ct' k' = items ct k'"
    and "\<exists>es. newEvents ct ct' = MapStore k (nextAddr ct) # es
            \<and> filter isStore es = [] \<and> filter isLoad es = []"
proof -
  let ?new = "\<lparr>key = k, data = v, lifeSpan = ls, createTime = tNew, accessedTime = tNew,
             accessCount = 0, aboutToExpire = []\<rparr> :: ('k, 'v, 'cb) CacheItem"
  let ?ct2 = "ct\<lparr>heap := (heap ct)(nextAddr ct := ?new),
                   nextAddr := Suc (nextAddr ct),
                   items := (items ct)(k \<mapsto> nextAddr ct),
                   trace := trace ct @ MapStore k (nextAddr ct)
                            # map (\<lambda>cb. AddedItemCall cb (nextAddr ct)) (addedItem ct)\<rparr>"
  let ?trig = "0 <s ls \<and> (cleanupDuration ct = 0 \<or> ls <s cleanupDuration ct)"
  have ct': "ct' = (if ?trig then expirationCheck tChk order ?ct2 else ?ct2)"
    by (simp add: ct'_def Add_unfold Let_def)
  show "fst (Add tNew tChk order k v ls ct) = nextAddr ct" by (simp add: Add_unfold)
  show "heap ct' = (heap ct)(nextAddr ct := ?new)"
    by (simp add: ct' expirationCheck_heap)
  show "nextAddr ct' = Suc (nextAddr ct)" by (simp add: ct' expirationCheck_frame)
  show "loadData ct' = loadData ct" by (simp add: ct' expirationCheck_frame)
  have d: "?trig \<Longrightarrow> due tChk ?ct2 k = (ls - Sub tChk tNew \<le>s 0)"
    by (auto simp add: due_def curDuration_def)
  show "items ct' k = (if ?trig \<and> k \<in> set order \<and> ls - Sub tChk tNew \<le>s 0
           then None else Some (nextAddr ct))"
    using d by (auto simp add: ct' expirationCheck_items)
  show "items ct' k' = None \<or> items ct' k' = items ct k'" if "k' \<noteq> k"
    using that by (simp add: ct' expirationCheck_items)
  show "\<exists>es. newEvents ct ct' = MapStore k (nextAddr ct) # es
            \<and> filter isStore es = [] \<and> filter isLoad es = []"
  proof (cases ?trig)
    case True
    obtain es where es: "trace (expirationCheck tChk order ?ct2)
         = trace ?ct2 @ ExpirationCheckRun tChk # es" "\<forall>e\<in>set es. isDeleteEvent e"
      using expirationCheck_trace by blast
    have "newEvents ct ct' = MapStore k (nextAddr ct)
        # (map (\<lambda>cb. AddedItemCall cb (nextAddr ct)) (addedItem ct)
           @ ExpirationCheckRun tChk # es)"
      using True es(1) by (simp add: ct' newEvents_def)
    moreover have "filter isStore (map (\<lambda>cb. AddedItemCall cb (nextAddr ct)) (addedItem ct)
           @ ExpirationCheckRun tChk # es) = []"
      using filter_delete_events[OF es(2)] by (simp add: filter_added_calls isStore_def)
    moreover have "filter isLoad (map (\<lambda>cb. AddedItemCall cb (nextAddr ct)) (addedItem ct)
           @ ExpirationCheckRun tChk # es) = []"
      using filter_delete_events[OF es(2)] by (simp add: filter_added_calls isLoad_def)
    ultimately show ?thesis by blast
  next
    case False
    then have "newEvents ct ct' = MapStore k (nextAddr ct)
        # map (\<lambda>cb. AddedItemCall cb (nextAddr ct)) (addedItem ct)"
      by (auto simp add: ct' newEvents_def)
    then show ?thesis using filter_added_calls by blast
  qed
qed


lemma NotFoundAdd_absent:
  "items ct k = None \<Longrightarrow>
     NotFoundAdd tNew tChk order k ls v ct = (True, snd (Add tNew tChk order k v ls ct))"
  by (simp add: NotFoundAdd_def Add_def split_beta)

lemma NotFoundAdd_present:
  "items ct k = Some a \<Longrightarrow> NotFoundAdd tNew tChk order k ls v ct = (False, ct)"
  by (simp add: NotFoundAdd_def)

section \<open>Adding only when the key is absent (claim C7)\<close>

text \<open>
  Claim C7. When the key is present, \<^verbatim>\<open>NotFoundAdd(key, lifeSpan, data)\<close> returns
  \<^verbatim>\<open>false\<close> and leaves the table as it was. When the key is absent it returns \<^verbatim>\<open>true\<close>
  and the first thing it does is to store, under the key, a new entry with that key,
  data and life span (accessed and created at the time of the call, never read, without
  callbacks); it stores nothing else and changes no other entry. In neither case is the
  loader called. The new entry is still stored under the key when the call returns,
  unless the expiration check that the insertion itself starts finds it already due.
\<close>

theorem NotFoundAdd_inserts_if_absent:
  "(items ct k = Some a \<longrightarrow> NotFoundAdd tNew tChk order k ls v ct = (False, ct))
   \<and> (items ct k = None \<longrightarrow>
         fst (NotFoundAdd tNew tChk order k ls v ct) = True
       \<and> (\<exists>es. newEvents ct (snd (NotFoundAdd tNew tChk order k ls v ct))
                  = MapStore k (nextAddr ct) # es \<and> filter isStore es = [])
       \<and> heap (snd (NotFoundAdd tNew tChk order k ls v ct)) =
           (heap ct)(nextAddr ct :=
              \<lparr>key = k, data = v, lifeSpan = ls, createTime = tNew, accessedTime = tNew,
               accessCount = 0, aboutToExpire = []\<rparr>)
       \<and> items (snd (NotFoundAdd tNew tChk order k ls v ct)) k =
           (if (0 <s ls \<and> (cleanupDuration ct = 0 \<or> ls <s cleanupDuration ct))
               \<and> k \<in> set order \<and> ls - Sub tChk tNew \<le>s 0
            then None else Some (nextAddr ct)))
   \<and> filter isLoad (newEvents ct (snd (NotFoundAdd tNew tChk order k ls v ct))) = []"
proof (cases "items ct k")
  case None
  let ?ct' = "snd (Add tNew tChk order k v ls ct)"
  obtain es where es: "newEvents ct ?ct' = MapStore k (nextAddr ct) # es"
      "filter isStore es = []" "filter isLoad es = []"
    using Add_result(7)[where ct=ct and tNew=tNew and tChk=tChk and order=order and k=k
        and v=v and ls=ls] by blast
  have "filter isLoad (newEvents ct ?ct') = []" using es by (simp add: isLoad_def)
  then show ?thesis
    using None es Add_result(2,5)[where ct=ct and tNew=tNew and tChk=tChk and order=order
        and k=k and v=v and ls=ls]
    by (simp add: NotFoundAdd_absent)
next
  case (Some a')
  then show ?thesis by (simp add: NotFoundAdd_present newEvents_def)
qed

theorem NotFoundAdd_inserts_if_absent_witness:
  "items exTable ''B'' = Some 1
   \<and> NotFoundAdd 5 6 [''A'', ''B'', ''C''] ''B'' 7 99 exTable = (False, exTable)
   \<and> items exTable ''E'' = None
   \<and> fst (NotFoundAdd 5 6 [''A'', ''B'', ''C'', ''E''] ''E'' 7 99 exTable) = True
   \<and> items (snd (NotFoundAdd 5 6 [''A'', ''B'', ''C'', ''E''] ''E'' 7 99 exTable)) ''E'' = Some 4
   \<and> heap (snd (NotFoundAdd 5 6 [''A'', ''B'', ''C'', ''E''] ''E'' 7 99 exTable)) 4 =
        \<lparr>key = ''E'', data = 99, lifeSpan = 7, createTime = 5, accessedTime = 5,
         accessCount = 0, aboutToExpire = []\<rparr>"
proof -
  have b: "items exTable ''B'' = Some 1" by (simp add: exTable_def)
  have e: "items exTable ''E'' = None" by (simp add: exTable_def)
  have n: "nextAddr exTable = 4" "cleanupDuration exTable = 10" by (simp_all add: exTable_def)
  have s: "\<not> (7::64 word) - Sub 6 5 \<le>s 0" by (simp add: Sub_def word_sless_alt word_sle_eq)
  note t1 = NotFoundAdd_inserts_if_absent[of exTable "''B''" 1 5 6 "[''A'', ''B'', ''C'']" 7 99]
  note t2 = NotFoundAdd_inserts_if_absent[of exTable "''E''" 1 5 6 "[''A'', ''B'', ''C'', ''E'']" 7 99]
  from t1 b have 1: "NotFoundAdd 5 6 [''A'', ''B'', ''C''] ''B'' 7 99 exTable = (False, exTable)"
    by blast
  from t2 e s show ?thesis using b 1 by (simp add: n)
qed

section \<open>What a loading read stores and what it returns (claim C10)\<close>

text \<open>
  Claim C10. On a miss on which the loader returns an item (an item of the heap),
  \<^verbatim>\<open>Value(key, args...)\<close> returns the loader's item itself. What it stores is another
  entry, at a fresh address: it is stored under the key asked for, whatever the key
  field of the loader's item, and carries the data and the life span of the loader's
  item with fresh metadata: never read, created and accessed at the time of the
  insertion, no expiry callbacks. The loader's item is left as it is, and this call
  stores it under no key: the entry returned is never the entry stored. (The stored
  entry is under the key on return unless the expiration check started by the
  insertion finds it already due.)
\<close>

theorem Value_loads_fresh_entry:
  assumes "items ct k = None" "loadData ct = Some f" "f k args = Some item"
    and "item < nextAddr ct"
  shows "fst (Value tNew tChk order k args ct) = Inr item
   \<and> (\<exists>es. newEvents ct (snd (Value tNew tChk order k args ct))
              = LoadDataCall k args # MapStore k (nextAddr ct) # es \<and> filter isStore es = [])
   \<and> nextAddr ct \<noteq> item
   \<and> heap (snd (Value tNew tChk order k args ct)) (nextAddr ct) =
        \<lparr>key = k, data = data (heap ct item), lifeSpan = lifeSpan (heap ct item),
         createTime = tNew, accessedTime = tNew, accessCount = 0, aboutToExpire = []\<rparr>
   \<and> heap (snd (Value tNew tChk order k args ct)) item = heap ct item
   \<and> items (snd (Value tNew tChk order k args ct)) k =
        (if (0 <s lifeSpan (heap ct item)
              \<and> (cleanupDuration ct = 0 \<or> lifeSpan (heap ct item) <s cleanupDuration ct))
            \<and> k \<in> set order \<and> lifeSpan (heap ct item) - Sub tChk tNew \<le>s 0
         then None else Some (nextAddr ct))
   \<and> (\<forall>k'. items (snd (Value tNew tChk order k args ct)) k' = Some item
          \<longrightarrow> k' \<noteq> k \<and> items ct k' = Some item)"
proof -
  let ?ct1 = "emit (LoadDataCall k args) ct"
  let ?d = "data (heap ct item)" and ?l = "lifeSpan (heap ct item)"
  let ?ct' = "snd (Add tNew tChk order k ?d ?l ?ct1)"
  have f1: "heap ?ct1 = heap ct" "nextAddr ?ct1 = nextAddr ct" "items ?ct1 = items ct"
     "cleanupDuration ?ct1 = cleanupDuration ct" "trace ?ct1 = trace ct @ [LoadDataCall k args]"
    by (simp_all add: emit_def)
  have V: "Value tNew tChk order k args ct = (Inr item, ?ct')"
    using assms(1-3) by (simp add: Value_def Let_def f1)
  have ne: "nextAddr ct \<noteq> item" using assms(4) by simp
  note A = Add_result[where ct="?ct1" and tNew=tNew and tChk=tChk and order=order and k=k
        and v="?d" and ls="?l", unfolded f1]
  obtain es where es: "newEvents ?ct1 ?ct' = MapStore k (nextAddr ct) # es"
      "filter isStore es = []" using A(7) by blast
  have le: "length (trace ct) < length (trace ?ct')"
  proof -
    have "length (trace ?ct') - length (trace ?ct1) = length (newEvents ?ct1 ?ct')"
      by (simp add: newEvents_def)
    then show ?thesis using es(1) f1(5) by simp
  qed
  have pre: "take (length (trace ?ct1)) (trace ?ct') = trace ?ct1"
  proof (cases "0 <s ?l \<and> (cleanupDuration ct = 0 \<or> ?l <s cleanupDuration ct)")
    case True
    let ?ct2 = "?ct1\<lparr>heap := (heap ?ct1)(nextAddr ?ct1 :=
                      \<lparr>key = k, data = ?d, lifeSpan = ?l, createTime = tNew, accessedTime = tNew,
                       accessCount = 0, aboutToExpire = []\<rparr>),
                   nextAddr := Suc (nextAddr ?ct1),
                   items := (items ?ct1)(k \<mapsto> nextAddr ?ct1),
                   trace := trace ?ct1 @ MapStore k (nextAddr ?ct1)
                            # map (\<lambda>cb. AddedItemCall cb (nextAddr ?ct1)) (addedItem ?ct1)\<rparr>"
    obtain es' where "trace (expirationCheck tChk order ?ct2)
         = trace ?ct2 @ ExpirationCheckRun tChk # es'"
      using expirationCheck_trace by blast
    then show ?thesis using True by (simp add: Add_unfold Let_def f1)
  next
    case False
    then show ?thesis by (auto simp add: Add_unfold Let_def f1)
  qed
  have nev: "newEvents ct ?ct' = LoadDataCall k args # MapStore k (nextAddr ct) # es"
  proof -
    have "trace ?ct' = trace ?ct1 @ newEvents ?ct1 ?ct'"
      unfolding newEvents_def using pre by (metis append_take_drop_id)
    then show ?thesis using es(1) f1(5) by (simp add: newEvents_def)
  qed
  have st: "\<forall>k'. items ?ct' k' = Some item \<longrightarrow> k' \<noteq> k \<and> items ct k' = Some item"
  proof (intro allI impI)
    fix k' assume a: "items ?ct' k' = Some item"
    have "k' \<noteq> k" using a A(5) ne by (auto split: if_splits)
    moreover from this have "items ?ct' k' = None \<or> items ?ct' k' = items ct k'"
      using A(6) by blast
    ultimately show "k' \<noteq> k \<and> items ct k' = Some item" using a by auto
  qed
  show ?thesis
    using V ne nev es(2) A(2,5) st by simp
qed

theorem Value_loads_fresh_entry_witness:
  "items exTable ''D'' = None \<and> loadData exTable = Some exLoader
   \<and> exLoader ''D'' [] = Some 3 \<and> 3 < nextAddr exTable
   \<and> fst (Value 5 6 [''A'', ''B'', ''C'', ''D''] ''D'' [] exTable) = Inr 3
   \<and> items (snd (Value 5 6 [''A'', ''B'', ''C'', ''D''] ''D'' [] exTable)) ''D'' = Some 4
   \<and> heap (snd (Value 5 6 [''A'', ''B'', ''C'', ''D''] ''D'' [] exTable)) 4 =
        \<lparr>key = ''D'', data = 44, lifeSpan = 50, createTime = 5, accessedTime = 5,
         accessCount = 0, aboutToExpire = []\<rparr>
   \<and> heap (snd (Value 5 6 [''A'', ''B'', ''C'', ''D''] ''D'' [] exTable)) 3 =
        \<lparr>key = ''L'', data = 44, lifeSpan = 50, createTime = 2, accessedTime = 3,
         accessCount = 7, aboutToExpire = [''onExpireL'']\<rparr>"
proof -
  have h: "items exTable ''D'' = None" "loadData exTable = Some exLoader"
      "exLoader ''D'' [] = Some 3" "3 < nextAddr exTable"
    by (simp_all add: exTable_def exLoader_def)
  have n: "nextAddr exTable = 4" "cleanupDuration exTable = 10" "heap exTable = exHeap"
    by (simp_all add: exTable_def)
  have i: "exHeap 3 = \<lparr>key = ''L'', data = 44, lifeSpan = 50, createTime = 2, accessedTime = 3,
         accessCount = 7, aboutToExpire = [''onExpireL'']\<rparr>" by (simp add: exHeap_def)
  from Value_loads_fresh_entry[OF h, of 5 6 "[''A'', ''B'', ''C'', ''D'']"] h
  show ?thesis by (simp add: n i word_sless_alt)
qed

section \<open>Ranking by access count\<close>

lemma sint_succ:
  assumes "sint (c::64 word) < sint (n::64 word)"
  shows "sint (c + 1) = sint c + 1"
proof -
  have lo: "- (2 ^ 63) \<le> sint c" using sint_ge[of c] by simp
  have hi: "sint n < 2 ^ 63" using sint_lt[of n] by simp
  have "sint (c + 1) = signed_take_bit 63 (sint c + 1)"
    by (simp add: sint_word_ariths)
  also have "\<dots> = sint c + 1"
    using lo hi assms by (intro signed_take_bit_int_eq_self) auto
  finally show ?thesis .
qed

text \<open>The second loop takes the first \<open>limit - c\<close> pairs, none when that is negative.\<close>

lemma collect_take:
  assumes "\<forall>p\<in>set ps. \<exists>a. items ct (Key p) = Some a"
  shows "collect limit c ps ct r =
           r @ map (\<lambda>p. the (items ct (Key p))) (take (nat (sint limit - sint c)) ps)"
  using assms
proof (induction ps arbitrary: c r)
  case Nil
  show ?case by simp
next
  case (Cons v p)
  show ?case
  proof (cases "limit \<le>s c")
    case True
    then have "nat (sint limit - sint c) = 0" by (simp add: word_sle_eq)
    then show ?thesis using True by simp
  next
    case False
    then have lt: "sint c < sint limit" by (simp add: word_sle_eq)
    then have s: "sint (c + 1) = sint c + 1" by (rule sint_succ)
    have n: "nat (sint limit - sint c) = Suc (nat (sint limit - sint (c + 1)))"
      using lt s by simp
    obtain a where a: "items ct (Key v) = Some a" using Cons.prems by auto
    have "collect limit c (v # p) ct r = collect limit (c + 1) p ct (r @ [a])"
      using False a by simp
    also have "\<dots> = (r @ [a]) @ map (\<lambda>p. the (items ct (Key p)))
                         (take (nat (sint limit - sint (c + 1))) p)"
      using Cons.IH[of "c + 1" "r @ [a]"] Cons.prems by simp
    finally show ?thesis using a n by simp
  qed
qed

lemma pairs_set:
  "set (pairs ks ct) =
     {\<lparr>Key = k, AccessCount = accessCount (heap ct v)\<rparr> | k v. k \<in> set ks \<and> items ct k = Some v}"
  by (induction ks) (auto split: option.splits)

lemma pairs_map:
  "set ks \<subseteq> dom (items ct) \<Longrightarrow>
     pairs ks ct = map (\<lambda>k. \<lparr>Key = k, AccessCount = accessCount (heap ct (the (items ct k)))\<rparr>) ks"
  by (induction ks) (auto split: option.splits)

lemma MostAccessed_general:
  fixes ct :: "('k, 'v, 'a, 'cb) CacheTable"
    and srt :: "'k CacheItemPair list \<Rightarrow> 'k CacheItemPair list"
  assumes range: "distinct order" "set order = dom (items ct)"
    and perm: "\<And>p. mset (srt p) = mset p"
    and sorted: "\<And>p. sorted_wrt (\<lambda>x y. \<not> Less y x) (srt p)"
  shows "length (MostAccessed srt order limit ct) \<le> nat (sint limit)
     \<and> length (MostAccessed srt order limit ct) = min (nat (sint limit)) (Count ct)
     \<and> (\<forall>a\<in>set (MostAccessed srt order limit ct). \<exists>k. items ct k = Some a)
     \<and> sorted_wrt (\<lambda>a b. sint (accessCount (heap ct b)) \<le> sint (accessCount (heap ct a)))
          (MostAccessed srt order limit ct)
     \<and> (\<forall>k a. items ct k = Some a \<and> a \<notin> set (MostAccessed srt order limit ct) \<longrightarrow>
          (\<forall>b\<in>set (MostAccessed srt order limit ct).
              \<not> sint (accessCount (heap ct b)) < sint (accessCount (heap ct a))))"
proof -
  define P where "P = pairs order ct"
  define S where "S = srt P"
  define n where "n = nat (sint limit)"
  define T where "T = take n S"
  define g where "g = (\<lambda>p::'k CacheItemPair. the (items ct (Key p)))"
  define cnt where "cnt = (\<lambda>a. sint (accessCount (heap ct a)))"
  define r where "r = MostAccessed srt order limit ct"
  have setS: "set S = set P" unfolding S_def using perm[of P] by (rule mset_eq_setD)
  have lenS: "length S = length P" unfolding S_def using perm[of P] by (rule mset_eq_length)
  have sS: "sorted_wrt (\<lambda>x y. \<not> Less y x) S" unfolding S_def by (rule sorted)
  have inS: "items ct (Key p) = Some (g p) \<and> sint (AccessCount p) = cnt (g p)"
    if "p \<in> set S" for p
  proof -
    from that have "p \<in> set (pairs order ct)" using setS by (simp add: P_def)
    then obtain k v where "p = \<lparr>Key = k, AccessCount = accessCount (heap ct v)\<rparr>"
        "items ct k = Some v" unfolding pairs_set by blast
    then show ?thesis by (simp add: g_def cnt_def)
  qed
  have inT: "p \<in> set S" if "p \<in> set T" for p
    using that unfolding T_def by (rule in_set_takeD)
  have "\<forall>p\<in>set S. \<exists>a. items ct (Key p) = Some a" using inS by blast
  then have "collect limit 0 S ct [] = [] @ map g (take (nat (sint limit - sint (0::64 word))) S)"
    unfolding g_def by (rule collect_take)
  then have r: "r = map g T"
    by (simp add: r_def MostAccessed_def S_def P_def T_def n_def)
  have lenP: "length P = Count ct"
  proof -
    have "set order \<subseteq> dom (items ct)" using range(2) by simp
    then have "length P = length order" unfolding P_def by (simp add: pairs_map)
    also have "\<dots> = card (set order)" using range(1) by (simp add: distinct_card)
    finally show ?thesis using range(2) by (simp add: Count_def)
  qed
  have A: "length r \<le> n" by (simp add: r T_def)
  have A': "length r = min n (Count ct)" using lenS lenP by (simp add: r T_def min.commute)
  have B: "\<forall>a\<in>set r. \<exists>k. items ct k = Some a"
  proof
    fix a assume "a \<in> set r"
    then obtain p where p: "p \<in> set T" "a = g p" unfolding r by auto
    from inS[OF inT[OF p(1)]] p(2) have "items ct (Key p) = Some a" by simp
    then show "\<exists>k. items ct k = Some a" ..
  qed
  have sT: "sorted_wrt (\<lambda>x y. \<not> Less y x) T"
    unfolding T_def using sS by (rule sorted_wrt_take)
  have C: "sorted_wrt (\<lambda>a b. cnt b \<le> cnt a) r"
    unfolding r sorted_wrt_map
  proof (rule sorted_wrt_mono_rel[OF _ sT])
    fix x y assume x: "x \<in> set T" and y: "y \<in> set T" and l: "\<not> Less y x"
    from l have "sint (AccessCount y) \<le> sint (AccessCount x)"
      by (simp add: Less_def word_sless_alt)
    then show "cnt (g y) \<le> cnt (g x)"
      using inS[OF inT[OF x]] inS[OF inT[OF y]] by simp
  qed
  have D: "\<forall>k a. items ct k = Some a \<and> a \<notin> set r \<longrightarrow> (\<forall>b\<in>set r. \<not> cnt b < cnt a)"
  proof (intro allI impI ballI)
    fix k a b assume ka: "items ct k = Some a \<and> a \<notin> set r" and b: "b \<in> set r"
    define pk where "pk = \<lparr>Key = k, AccessCount = accessCount (heap ct a)\<rparr>"
    have "k \<in> set order" using ka range(2) by auto
    then have "pk \<in> set (pairs order ct)" unfolding pairs_set pk_def using ka by blast
    then have pS: "pk \<in> set S" using setS by (simp add: P_def)
    have gk: "g pk = a" using ka by (simp add: g_def pk_def)
    have pT: "pk \<notin> set T"
    proof
      assume "pk \<in> set T"
      then have "g pk \<in> g ` set T" by (rule imageI)
      then show False using ka gk by (simp add: r)
    qed
    have "set S = set T \<union> set (drop n S)"
      unfolding T_def by (metis append_take_drop_id set_append)
    then have dr: "pk \<in> set (drop n S)" using pS pT by blast
    obtain q where q: "q \<in> set T" "b = g q" using b unfolding r by auto
    have "sorted_wrt (\<lambda>x y. \<not> Less y x) (T @ drop n S)" using sS by (simp add: T_def)
    then have "\<not> Less pk q" using q(1) dr unfolding sorted_wrt_append by blast
    then have "sint (AccessCount pk) \<le> sint (AccessCount q)"
      by (simp add: Less_def word_sless_alt)
    moreover have "sint (AccessCount q) = cnt b" using inS[OF inT[OF q(1)]] q(2) by simp
    moreover have "sint (AccessCount pk) = cnt a" by (simp add: pk_def cnt_def)
    ultimately show "\<not> cnt b < cnt a" by simp
  qed
  show ?thesis using A A' B C D unfolding r_def n_def cnt_def by blast
qed


lemma Less_sint: "\<not> Less y x \<longleftrightarrow> - sint (AccessCount x) \<le> - sint (AccessCount y)"
  by (auto simp add: Less_def word_sless_alt)

text \<open>When the counts are all different there is one way only to sort the pairs.\<close>

lemma sorted_pairs_unique:
  assumes m: "mset ys = mset xs"
    and sy: "sorted_wrt (\<lambda>x y. \<not> Less y x) ys"
    and sx: "sorted_wrt (\<lambda>x y. \<not> Less y x) xs"
    and inj: "inj_on AccessCount (set xs)"
  shows "ys = xs"
proof -
  define f where "f = (\<lambda>p::'a CacheItemPair. - sint (AccessCount p))"
  have "sorted (map f ys)" "sorted (map f xs)"
    using sy sx by (simp_all add: sorted_wrt_map Less_sint f_def)
  moreover have "mset (map f ys) = mset (map f xs)" using m by simp
  ultimately have e: "map f xs = map f ys"
    by (metis properties_for_sort)
  have "inj_on f (set xs)"
  proof (rule inj_onI)
    fix p q assume p: "p \<in> set xs" and q: "q \<in> set xs" and "f p = f q"
    then have "sint (AccessCount p) = sint (AccessCount q)" by (simp add: f_def)
    then have "AccessCount p = AccessCount q" by (rule signed_word_eqI)
    with inj p q show "p = q" by (simp add: inj_on_def)
  qed
  moreover have "set ys = set xs" using m by (rule mset_eq_setD)
  ultimately have "inj_on f (set xs \<union> set ys)" by simp
  then show ?thesis using e by (simp add: inj_on_map_eq_map)
qed

lemma MostAccessed_three:
  fixes ct :: "('k, 'v, 'a, 'cb) CacheTable"
  assumes range: "distinct order" "set order = dom (items ct)"
    and perm: "\<And>p. mset (srt p) = mset p"
    and sorted: "\<And>p. sorted_wrt (\<lambda>x y. \<not> Less y x) (srt p)"
    and d: "dom (items ct) = {kA, kB, kC}"
    and i: "items ct kA = Some aA" "items ct kB = Some aB" "items ct kC = Some aC"
    and c: "accessCount (heap ct aA) = 5" "accessCount (heap ct aB) = 1"
           "accessCount (heap ct aC) = 3"
  shows "MostAccessed srt order 2 ct = [aA, aC]"
proof -
  define mk where
    "mk = (\<lambda>k. \<lparr>Key = k, AccessCount = accessCount (heap ct (the (items ct k)))\<rparr>)"
  have ne: "kA \<noteq> kB" "kA \<noteq> kC" "kB \<noteq> kC" using i c by auto
  have "mset order = mset [kA, kC, kB]"
  proof -
    have "distinct [kA, kC, kB]" using ne by auto
    moreover have "set order = set [kA, kC, kB]" using range(2) d by auto
    ultimately show ?thesis using range(1) by (simp only: set_eq_iff_mset_eq_distinct)
  qed
  moreover have "pairs order ct = map mk order"
    using range(2) by (simp add: pairs_map mk_def)
  ultimately have "mset (pairs order ct) = mset (map mk [kA, kC, kB])"
    by (metis mset_map)
  then have m: "mset (srt (pairs order ct)) = mset (map mk [kA, kC, kB])"
    using perm by simp
  have mkv: "mk kA = \<lparr>Key = kA, AccessCount = 5\<rparr>" "mk kB = \<lparr>Key = kB, AccessCount = 1\<rparr>"
     "mk kC = \<lparr>Key = kC, AccessCount = 3\<rparr>" using i c by (simp_all add: mk_def)
  have sx: "sorted_wrt (\<lambda>x y. \<not> Less y x) (map mk [kA, kC, kB])"
    by (simp add: mkv Less_def word_sless_alt)
  have inj: "inj_on AccessCount (set (map mk [kA, kC, kB]))"
    by (simp add: mkv)
  have "srt (pairs order ct) = map mk [kA, kC, kB]"
    using m sorted sx inj by (rule sorted_pairs_unique)
  then show ?thesis
    using i by (simp add: MostAccessed_def mkv word_sle_eq)
qed

lemma exSort_perm: "mset (exSort p) = mset p"
  by (simp add: exSort_def)

lemma exSort_sorted: "sorted_wrt (\<lambda>x y. \<not> Less y x) (exSort p)"
proof -
  have "sorted (map (\<lambda>x. - sint (AccessCount x)) (exSort p))"
    unfolding exSort_def by (rule sorted_sort_key)
  then show ?thesis by (simp add: sorted_wrt_map Less_sint)
qed

subsection \<open>Claim C8\<close>

text \<open>
  Claim C8. Let the range yield every key of the map once, and let \<^verbatim>\<open>sort.Sort\<close> return
  its argument rearranged so that no element is \<^verbatim>\<open>Less\<close> than an earlier one. Then for
  every table and every limit, \<^verbatim>\<open>MostAccessed(limit)\<close> returns at most \<open>limit\<close> entries
  (none for a limit that is not positive; all of them when the table has no more than
  \<open>limit\<close>), each of them stored in the table, in non-increasing order of \<^verbatim>\<open>accessCount\<close>,
  and no entry of the table that is left out has a count strictly greater than that of
  an entry returned. In particular, when the table holds three entries with the counts
  5, 1 and 3, \<^verbatim>\<open>MostAccessed(2)\<close> returns the first and the third, in this order.
\<close>

theorem MostAccessed_ranks:
  fixes ct :: "('k, 'v, 'a, 'cb) CacheTable"
    and srt :: "'k CacheItemPair list \<Rightarrow> 'k CacheItemPair list"
  assumes range: "distinct order" "set order = dom (items ct)"
    and perm: "\<And>p. mset (srt p) = mset p"
    and sorted: "\<And>p. sorted_wrt (\<lambda>x y. \<not> Less y x) (srt p)"
  shows "length (MostAccessed srt order limit ct) \<le> nat (sint limit)
     \<and> length (MostAccessed srt order limit ct) = min (nat (sint limit)) (Count ct)
     \<and> (\<forall>a\<in>set (MostAccessed srt order limit ct). \<exists>k. items ct k = Some a)
     \<and> sorted_wrt (\<lambda>a b. sint (accessCount (heap ct b)) \<le> sint (accessCount (heap ct a)))
          (MostAccessed srt order limit ct)
     \<and> (\<forall>k a. items ct k = Some a \<and> a \<notin> set (MostAccessed srt order limit ct) \<longrightarrow>
          (\<forall>b\<in>set (MostAccessed srt order limit ct).
              \<not> sint (accessCount (heap ct b)) < sint (accessCount (heap ct a))))
     \<and> (\<forall>kA kB kC aA aB aC.
          dom (items ct) = {kA, kB, kC}
          \<and> items ct kA = Some aA \<and> items ct kB = Some aB \<and> items ct kC = Some aC
          \<and> accessCount (heap ct aA) = 5 \<and> accessCount (heap ct aB) = 1
          \<and> accessCount (heap ct aC) = 3
          \<longrightarrow> MostAccessed srt order 2 ct = [aA, aC])"
proof -
  note g = MostAccessed_general[OF range perm sorted, of limit]
  have "\<forall>kA kB kC aA aB aC.
          dom (items ct) = {kA, kB, kC}
          \<and> items ct kA = Some aA \<and> items ct kB = Some aB \<and> items ct kC = Some aC
          \<and> accessCount (heap ct aA) = 5 \<and> accessCount (heap ct aB) = 1
          \<and> accessCount (heap ct aC) = 3
          \<longrightarrow> MostAccessed srt order 2 ct = [aA, aC]"
    using MostAccessed_three[OF range perm sorted] by blast
  with g show ?thesis by blast
qed

text \<open>The theorem at the example table, whose entries \<open>A\<close>, \<open>B\<close>, \<open>C\<close> (at the
  addresses 0, 1, 2) have been read 5, 1 and 3 times.\<close>

theorem MostAccessed_ranks_witness:
  "distinct [''B'', ''A'', ''C'']
   \<and> set [''B'', ''A'', ''C''] = dom (items exTable)
   \<and> MostAccessed exSort [''B'', ''A'', ''C''] 2 exTable = [0, 2]
   \<and> accessCount (heap exTable 0) = 5 \<and> accessCount (heap exTable 2) = 3
   \<and> MostAccessed exSort [''B'', ''A'', ''C''] 0 exTable = []
   \<and> length (MostAccessed exSort [''B'', ''A'', ''C''] 7 exTable) = 3"
proof -
  have r: "distinct [''B'', ''A'', ''C'']" "set [''B'', ''A'', ''C''] = dom (items exTable)"
    by (auto simp add: exTable_def)
  have d: "dom (items exTable) = {''A'', ''B'', ''C''}
          \<and> items exTable ''A'' = Some 0 \<and> items exTable ''B'' = Some 1
          \<and> items exTable ''C'' = Some 2
          \<and> accessCount (heap exTable 0) = 5 \<and> accessCount (heap exTable 1) = 1
          \<and> accessCount (heap exTable 2) = 3"
    by (auto simp add: exTable_def exHeap_def)
  have c: "Count exTable = 3" by (simp add: Count_def exTable_def)
  note t = MostAccessed_ranks[OF r exSort_perm exSort_sorted]
  note e = t[of 2, THEN conjunct2, THEN conjunct2, THEN conjunct2, THEN conjunct2,
             THEN conjunct2, rule_format, of "''A''" "''B''" "''C''" 0 1 2, OF d]
  have "length (MostAccessed exSort [''B'', ''A'', ''C''] 0 exTable) \<le> nat (sint (0::64 word))"
    by (rule t[of 0, THEN conjunct1])
  then have 2: "MostAccessed exSort [''B'', ''A'', ''C''] 0 exTable = []" by simp
  have "length (MostAccessed exSort [''B'', ''A'', ''C''] 7 exTable)
          = min (nat (sint (7::64 word))) (Count exTable)"
    by (rule t[of 7, THEN conjunct2, THEN conjunct1])
  then have 3: "length (MostAccessed exSort [''B'', ''A'', ''C''] 7 exTable) = 3"
    by (simp add: c)
  have 4: "accessCount (heap exTable 0) = 5 \<and> accessCount (heap exTable 2) = 3"
    using d by (intro conjI) (elim conjE, assumption)+
  show ?thesis
    by (intro conjI r e 2 3 4[THEN conjunct1] 4[THEN conjunct2])
qed

section \<open>Keeping an entry alive\<close>













subsection \<open>Claim C6\<close>



section \<open>The operations keep the timer and the recorded duration in agreement\<close>

lemma timerConsistent_NotFoundAdd:
  assumes "timerConsistent ct"
  shows "timerConsistent (snd (NotFoundAdd tNew tChk order k ls v ct))"
proof (cases "items ct k")
  case None
  then show ?thesis using timerConsistent_Add[OF assms] by (simp add: NotFoundAdd_absent)
next
  case (Some a)
  then show ?thesis using assms by (simp add: NotFoundAdd_present)
qed

lemma timerConsistent_Value:
  assumes "timerConsistent ct"
  shows "timerConsistent (snd (Value tNew tChk order k args ct))"
proof -
  have e: "timerConsistent (emit (LoadDataCall k args) ct)"
    using assms by (simp add: timerConsistent_def emit_def)
  show ?thesis
    using assms e timerConsistent_Add[OF e]
    by (auto simp add: Value_def Let_def timerConsistent_def split: option.splits)
qed

end
